theory Spec2Isabelle
  imports Complex_Main "HOL-Library.Log_Nat"
begin

section \<open>Wallis' product: the function \<open>w_pi\<close> of the solution notebook\<close>

text \<open>
  The notebook \<^verbatim>\<open>exercises/Wallis-Pi-solution.ipynb\<close> defines

  \<^verbatim>\<open>def w_pi(n):\<close>
  \<^verbatim>\<open>    num = 1\<close>
  \<^verbatim>\<open>    den = 1\<close>
  \<^verbatim>\<open>    for i in range(1,n+1):\<close>
  \<^verbatim>\<open>        tmp = 4*i*i\<close>
  \<^verbatim>\<open>        num *= tmp\<close>
  \<^verbatim>\<open>        den *= tmp-1\<close>
  \<^verbatim>\<open>    return 2.0*(num/den)\<close>

  Python integers are unbounded, so they are HOL's \<open>int\<close>. The only two floating-point
  operations are the true division \<open>num/den\<close> of two integers and the multiplication by
  \<open>2.0\<close>; both are modelled below by their values as rational numbers.
\<close>

subsection \<open>Python's floating-point operations used by \<open>w_pi\<close>\<close>

text \<open>The exceptions that \<open>int / int\<close> can raise.\<close>

datatype error = ZeroDivisionError | OverflowError

text \<open>
  A Python float that \<open>2.0 * x\<close> can produce from a finite \<open>x\<close>: a finite binary64 value
  (given by the rational number it denotes) or an infinity. The sign of a zero is not
  represented.
\<close>

datatype pyfloat = Fin rat | PosInf | NegInf

text \<open>Rounding to the nearest integer, ties to the even one (the IEEE 754 default).\<close>

definition round_half_even :: "rat \<Rightarrow> int" where
  "round_half_even x =
     (let f = \<lfloor>x\<rfloor>; d = x - of_int f in
      if d < 1 / 2 then f
      else if 1 / 2 < d then f + 1
      else if even f then f else f + 1)"

text \<open>
  The binary exponent of the positive fraction \<open>a / b\<close> (for \<open>0 < a\<close> and \<open>0 < b\<close>): the
  integer \<open>e\<close> with \<open>2\<^sup>e \<le> a / b < 2\<^sup>e\<^sup>+\<^sup>1\<close>. The difference of the bit lengths is
  either \<open>e\<close> or \<open>e + 1\<close>.
\<close>

definition frac_exponent :: "int \<Rightarrow> int \<Rightarrow> int" where
  "frac_exponent a b =
     (let d = bitlen a - bitlen b in
      if (2::rat) powi d * of_int b \<le> of_int a then d else d - 1)"

text \<open>
  The binary64 value nearest to the positive fraction \<open>a / b\<close>, exponent range unbounded
  above: 53 significant bits for a normal result, multiples of \<open>2\<^sup>-\<^sup>1\<^sup>0\<^sup>7\<^sup>4\<close> below
  \<open>2\<^sup>-\<^sup>1\<^sup>0\<^sup>2\<^sup>2\<close>.
\<close>

definition nearest_double :: "int \<Rightarrow> int \<Rightarrow> rat" where
  "nearest_double a b =
     (let e = max (frac_exponent a b) (- 1022);
          u = (2::rat) powi (e - 52)
      in of_int (round_half_even (of_int a / of_int b / u)) * u)"

text \<open>
  Python's \<open>a / b\<close> on two integers: the correctly rounded quotient as a float,
  \<open>ZeroDivisionError\<close> for a zero divisor, \<open>OverflowError\<close> when the rounded quotient is
  beyond the largest finite binary64 value.
\<close>

definition truediv :: "int \<Rightarrow> int \<Rightarrow> error + rat" where
  "truediv a b =
     (if b = 0 then Inl ZeroDivisionError
      else if a = 0 then Inr 0
      else let r = nearest_double \<bar>a\<bar> \<bar>b\<bar> in
           if 2 ^ 1024 \<le> r then Inl OverflowError
           else Inr (of_int (sgn a * sgn b) * r))"

text \<open>
  Python's \<open>2.0 * x\<close> on a finite float \<open>x\<close>: doubling is exact in binary floating point
  unless it leaves the finite range, where the result is an infinity (no exception).
\<close>

definition fmul_two :: "rat \<Rightarrow> pyfloat" where
  "fmul_two x =
     (if 2 ^ 1024 \<le> 2 * x then PosInf
      else if 2 * x \<le> - (2 ^ 1024) then NegInf
      else Fin (2 * x))"

subsection \<open>The function \<open>w_pi\<close>\<close>

text \<open>One pass through the body of the \<open>for\<close> loop, on the pair \<open>(num, den)\<close>.\<close>

fun wallis_body :: "int \<times> int \<Rightarrow> int \<Rightarrow> int \<times> int" where
  "wallis_body (num, den) i = (let tmp = 4 * i * i in (num * tmp, den * (tmp - 1)))"

text \<open>
  The loop over \<open>range(1, n+1)\<close>, which is the list \<open>[1..n]\<close> (empty when \<open>n < 1\<close>),
  started from \<open>num = 1\<close> and \<open>den = 1\<close>.
\<close>

definition wallis_loop :: "int \<Rightarrow> int \<times> int" where
  "wallis_loop n = foldl wallis_body (1, 1) [1..n]"

definition w_pi :: "int \<Rightarrow> error + pyfloat" where
  "w_pi n =
     (case wallis_loop n of
        (num, den) \<Rightarrow>
          (case truediv num den of
             Inl e \<Rightarrow> Inl e
           | Inr q \<Rightarrow> Inr (fmul_two q)))"

subsection \<open>The call with its environment\<close>



subsection \<open>The products of the formula\<close>

text \<open>
  Wallis' formula as the docstring writes it, \<open>pi(n) = 2 \<Prod>\<^sub>i\<^sub>=\<^sub>1\<^sup>n 4i\<^sup>2 / (4i\<^sup>2 - 1)\<close>: the
  two products as mathematical integers and their exact quotient. These follow the
  formula, not the loop; the loop is compared with them below.
\<close>

definition wallis_num :: "int \<Rightarrow> int" where
  "wallis_num n = (\<Prod>i\<in>{1..n}. 4 * i * i)"

definition wallis_den :: "int \<Rightarrow> int" where
  "wallis_den n = (\<Prod>i\<in>{1..n}. 4 * i * i - 1)"

definition wallis_quot :: "int \<Rightarrow> rat" where
  "wallis_quot n = of_int (wallis_num n) / of_int (wallis_den n)"

text \<open>
  Rounding to 53 significant bits a rational in \<open>[1, 2)\<close>, where binary64 values are
  the multiples of \<open>2\<^sup>-\<^sup>5\<^sup>2\<close>.
\<close>

definition round53 :: "rat \<Rightarrow> rat" where
  "round53 x = of_int (round_half_even (x * 2 ^ 52)) / 2 ^ 52"

text \<open>A result that is a finite float strictly between two bounds.\<close>

definition float_in_open :: "rat \<Rightarrow> rat \<Rightarrow> error + pyfloat \<Rightarrow> bool" where
  "float_in_open lo hi r = (case r of Inr (Fin x) \<Rightarrow> lo < x \<and> x < hi | _ \<Rightarrow> False)"

text \<open>
  The integral of \<open>sin\<^sup>n\<close> from 0 to \<open>x\<close>, in closed form by the reduction formula. It is
  used only to compare the partial products with \<open>pi\<close>.
\<close>

fun sin_int :: "nat \<Rightarrow> real \<Rightarrow> real" where
  "sin_int 0 x = x"
| "sin_int (Suc 0) x = 1 - cos x"
| "sin_int (Suc (Suc n)) x =
     (real (Suc n) * sin_int n x - sin x ^ Suc n * cos x) / real (Suc (Suc n))"

section \<open>Rounding and the true division\<close>

lemma round_half_even_of_int: "round_half_even (of_int k) = k"
  by (simp add: round_half_even_def)

lemma round_half_even_error: "\<bar>of_int (round_half_even x) - x\<bar> \<le> 1 / 2"
proof -
  have "of_int \<lfloor>x\<rfloor> \<le> x" "x < of_int \<lfloor>x\<rfloor> + 1" by linarith+
  then show ?thesis
    by (auto simp: round_half_even_def Let_def abs_le_iff)
qed

lemma bitlen_ratio_bounds:
  assumes a: "0 < a" and b: "0 < b"
  shows "(2::rat) powi (bitlen a - bitlen b - 1) * of_int b < of_int a"
    and "of_int a < (2::rat) powi (bitlen a - bitlen b + 1) * of_int b"
proof -
  define la where "la = bitlen a"
  define lb where "lb = bitlen b"
  have la: "2 ^ nat (la - 1) \<le> a" "a < 2 ^ nat la" and lb: "2 ^ nat (lb - 1) \<le> b" "b < 2 ^ nat lb"
    using bitlen_bounds[OF a] bitlen_bounds[OF b] by (simp_all add: la_def lb_def)
  have la1: "1 \<le> la" and lb1: "1 \<le> lb"
    using a b by (simp_all add: la_def lb_def bitlen_alt_def)
  have A1: "(2::rat) powi (la - 1) \<le> of_int a"
  proof -
    have "(of_int (2 ^ nat (la - 1)) :: rat) \<le> of_int a" using la(1) by (simp only: of_int_le_iff)
    then show ?thesis using la1 by (simp add: power_int_def)
  qed
  have A2: "of_int a < (2::rat) powi la"
  proof -
    have "(of_int a :: rat) < of_int (2 ^ nat la)" using la(2) by (simp only: of_int_less_iff)
    then show ?thesis using la1 by (simp add: power_int_def)
  qed
  have B1: "(2::rat) powi (lb - 1) \<le> of_int b"
  proof -
    have "(of_int (2 ^ nat (lb - 1)) :: rat) \<le> of_int b" using lb(1) by (simp only: of_int_le_iff)
    then show ?thesis using lb1 by (simp add: power_int_def)
  qed
  have B2: "of_int b < (2::rat) powi lb"
  proof -
    have "(of_int b :: rat) < of_int (2 ^ nat lb)" using lb(2) by (simp only: of_int_less_iff)
    then show ?thesis using lb1 by (simp add: power_int_def)
  qed
  have "(2::rat) powi (la - lb - 1) * of_int b < 2 powi (la - lb - 1) * 2 powi lb"
    using B2 by simp
  also have "\<dots> = 2 powi (la - 1)"
    by (simp add: power_int_add [symmetric])
  finally show "(2::rat) powi (bitlen a - bitlen b - 1) * of_int b < of_int a"
    using A1 by (simp add: la_def lb_def)
  have "(of_int a :: rat) < 2 powi la" by (rule A2)
  also have "\<dots> = 2 powi (la - lb + 1) * 2 powi (lb - 1)"
    by (simp add: power_int_add [symmetric])
  also have "\<dots> \<le> 2 powi (la - lb + 1) * of_int b"
    using B1 by simp
  finally show "of_int a < (2::rat) powi (bitlen a - bitlen b + 1) * of_int b"
    by (simp add: la_def lb_def)
qed

lemma frac_exponent_bounds:
  assumes a: "0 < a" and b: "0 < b"
  shows "(2::rat) powi (frac_exponent a b) * of_int b \<le> of_int a"
    and "of_int a < (2::rat) powi (frac_exponent a b + 1) * of_int b"
  using bitlen_ratio_bounds[OF a b]
  by (auto simp: frac_exponent_def Let_def not_le)

lemma powi_two_less_imp:
  assumes "(2::rat) powi i < 2 powi j" shows "i < j"
proof (rule ccontr)
  assume "\<not> i < j"
  then have "(2::rat) powi j \<le> 2 powi i" by (intro power_int_increasing) simp_all
  with assms show False by simp
qed

text \<open>A quotient in \<open>[1, 2)\<close> has binary exponent 0.\<close>

lemma frac_exponent_unit:
  assumes b: "0 < b" and ab: "b \<le> a" and a2: "a < 2 * b"
  shows "frac_exponent a b = 0"
proof -
  have a: "0 < a" using b ab by simp
  define e where "e = frac_exponent a b"
  have bq: "(0::rat) < of_int b" using b by simp
  have 1: "(2::rat) powi e * of_int b \<le> of_int a" and 2: "of_int a < (2::rat) powi (e + 1) * of_int b"
    using frac_exponent_bounds[OF a b] by (simp_all add: e_def)
  have "(of_int a :: rat) < 2 * of_int b" using a2 by (metis of_int_less_iff of_int_mult of_int_numeral)
  with 1 have "(2::rat) powi e * of_int b < 2 powi 1 * of_int b" by simp
  then have "(2::rat) powi e < 2 powi 1" using bq by (simp only: mult_less_cancel_right_pos)
  then have "e < 1" by (rule powi_two_less_imp)
  moreover
  have "(of_int b :: rat) \<le> of_int a" using ab by simp
  with 2 have "2 powi 0 * of_int b < (2::rat) powi (e + 1) * of_int b" by simp
  then have "(2::rat) powi 0 < 2 powi (e + 1)" using bq by (simp only: mult_less_cancel_right_pos)
  then have "0 < e + 1" by (rule powi_two_less_imp)
  ultimately show ?thesis unfolding e_def by simp
qed

lemma ulp_unit: "(2::rat) powi (max 0 (- 1022) - 52) = 1 / 2 ^ 52"
proof -
  have "max (0::int) (- 1022) - 52 = - 52" by simp
  moreover have "(2::rat) powi (- 52) = inverse (2 powi 52)" by (rule power_int_minus)
  moreover have "(2::rat) powi 52 = 2 ^ 52" by (simp only: power_int_numeral)
  ultimately show ?thesis by (simp only: inverse_eq_divide)
qed

lemma nearest_double_unit:
  assumes "0 < b" "b \<le> a" "a < 2 * b"
  shows "nearest_double a b = round53 (of_int a / of_int b)"
  unfolding nearest_double_def Let_def frac_exponent_unit[OF assms] ulp_unit round53_def
  by (simp only: divide_divide_eq_right times_divide_eq_right mult_1 mult_1_right div_by_1)

lemma round53_error: "\<bar>round53 x - x\<bar> \<le> 1 / 2 ^ 53"
proof -
  define c :: rat where "c = 2 ^ 52"
  have c: "0 < c" by (simp add: c_def)
  define m where "m = round_half_even (x * c)"
  have "\<bar>of_int m - x * c\<bar> \<le> 1 / 2" unfolding m_def by (rule round_half_even_error)
  moreover have "of_int m - x * c = (of_int m / c - x) * c" using c by (simp add: field_simps)
  ultimately have "\<bar>of_int m / c - x\<bar> * c \<le> 1 / 2" using c by (simp add: abs_mult)
  then have "\<bar>of_int m / c - x\<bar> \<le> 1 / 2 / c" using c by (simp add: pos_le_divide_eq)
  moreover have "1 / 2 / c = 1 / 2 ^ 53" by (simp add: c_def)
  ultimately show ?thesis by (simp only: round53_def m_def c_def)
qed

lemma round53_of_int: "round53 (of_int k) = of_int k"
proof -
  have "(of_int k :: rat) * 2 ^ 52 = of_int (k * 2 ^ 52)" by simp
  then have "round_half_even (of_int k * 2 ^ 52) = k * 2 ^ 52"
    by (simp only: round_half_even_of_int)
  then show ?thesis by (simp add: round53_def)
qed

lemma double_range_big: "(4::rat) \<le> 2 ^ 1024"
proof -
  have "(2::rat) ^ 2 \<le> 2 ^ 1024" by (rule power_increasing) simp_all
  then show ?thesis by (simp only: power2_eq_square)
qed

lemma truediv_pos:
  assumes "0 < a" "0 < b" "nearest_double a b < 4"
  shows "truediv a b = Inr (nearest_double a b)"
proof -
  have "\<not> 2 ^ 1024 \<le> nearest_double a b" using assms(3) double_range_big by linarith
  moreover have "b \<noteq> 0" "a \<noteq> 0" "\<bar>a\<bar> = a" "\<bar>b\<bar> = b" "sgn a = 1" "sgn b = 1"
    using assms by simp_all
  ultimately show ?thesis
    unfolding truediv_def Let_def by (simp only: if_False mult_1 of_int_1)
qed

lemma truediv_unit:
  assumes "0 < b" "b \<le> a" "a < 2 * b"
  shows "truediv a b = Inr (round53 (of_int a / of_int b))"
proof -
  let ?q = "of_int a / of_int b :: rat"
  have a: "0 < a" using assms by simp
  have "?q < 2" using assms
    by (simp add: divide_less_eq)
  moreover have "round53 ?q \<le> ?q + 1 / 2 ^ 53" using round53_error[of ?q] by linarith
  ultimately have "round53 ?q < 4" by simp
  then show ?thesis using truediv_pos[OF a assms(1)]
    by (simp only: nearest_double_unit[OF assms])
qed

lemma fmul_two_small:
  assumes "- 2 < x" "x < 2"
  shows "fmul_two x = Fin (2 * x)"
proof -
  have "\<not> 2 ^ 1024 \<le> 2 * x" "\<not> 2 * x \<le> - (2 ^ 1024)"
    using assms double_range_big by linarith+
  then show ?thesis unfolding fmul_two_def by (simp only: if_False)
qed

section \<open>The loop computes the two products\<close>

lemma wallis_num_0: "n \<le> 0 \<Longrightarrow> wallis_num n = 1"
  by (simp add: wallis_num_def)

lemma wallis_den_0: "n \<le> 0 \<Longrightarrow> wallis_den n = 1"
  by (simp add: wallis_den_def)

lemma int_interval_Suc: "0 \<le> n \<Longrightarrow> {1..n + 1} = insert (n + 1) {1..n::int}"
  by auto

lemma wallis_num_step: "0 \<le> n \<Longrightarrow> wallis_num (n + 1) = wallis_num n * (4 * (n + 1) * (n + 1))"
  by (simp add: wallis_num_def int_interval_Suc mult.commute)

lemma wallis_den_step: "0 \<le> n \<Longrightarrow> wallis_den (n + 1) = wallis_den n * (4 * (n + 1) * (n + 1) - 1)"
  by (simp add: wallis_den_def int_interval_Suc mult.commute)

lemma wallis_loop_neg: "n \<le> 0 \<Longrightarrow> wallis_loop n = (1, 1)"
  by (simp add: wallis_loop_def)

lemma wallis_loop_step:
  "0 \<le> n \<Longrightarrow> wallis_loop (n + 1) = wallis_body (wallis_loop n) (n + 1)"
  by (simp add: wallis_loop_def upto_rec2[of 1 "n + 1"])

lemma wallis_loop_eq: "wallis_loop n = (wallis_num n, wallis_den n)"
proof (cases "0 \<le> n")
  case True
  then show ?thesis
  proof (induction n rule: int_ge_induct)
    case base
    show ?case by (simp add: wallis_loop_neg wallis_num_0 wallis_den_0)
  next
    case (step i)
    then show ?case
      by (simp add: wallis_loop_step wallis_num_step wallis_den_step Let_def)
  qed
next
  case False
  then show ?thesis by (simp add: wallis_loop_neg wallis_num_0 wallis_den_0)
qed




section \<open>Bounds on the products\<close>

lemma wallis_den_pos: "0 < wallis_den n"
  unfolding wallis_den_def
proof (rule prod_pos)
  fix i :: int assume "i \<in> {1..n}"
  then have "1 \<le> i" by simp
  then have "1 * 1 \<le> i * i" by (intro mult_mono) simp_all
  then show "0 < 4 * i * i - 1" by simp
qed

lemma wallis_num_pos: "0 < wallis_num n"
  unfolding wallis_num_def
  by (rule prod_pos) simp

lemma wallis_den_le_num: "wallis_den n \<le> wallis_num n"
  unfolding wallis_den_def wallis_num_def
proof (rule prod_mono, intro conjI)
  fix i :: int assume "i \<in> {1..n}"
  then have "1 \<le> i" by simp
  then have "1 * 1 \<le> i * i" by (intro mult_mono) simp_all
  then show "0 \<le> 4 * i * i - 1" by simp
  show "4 * i * i - 1 \<le> 4 * i * i" by simp
qed


text \<open>
  The quotient scaled by \<open>(2n+2)/(2n+1)\<close> decreases with \<open>n\<close>, which bounds the
  quotient by \<open>16/9\<close>.
\<close>

lemma wallis_scaled_bound:
  "1 \<le> n \<Longrightarrow> 9 * wallis_num n * (2 * n + 2) \<le> 16 * wallis_den n * (2 * n + 1)"
proof (induction n rule: int_ge_induct)
  case base
  have "wallis_num (0 + 1) = 4" "wallis_den (0 + 1) = 3"
    by (simp_all only: wallis_num_step wallis_den_step order_refl wallis_num_0 wallis_den_0)  simp_all
  then show ?case by simp
next
  case (step i)
  have i0: "0 \<le> i" using step.hyps by simp
  define N where "N = wallis_num i"
  define D where "D = wallis_den i"
  have N: "0 < N" and D: "0 < D" by (simp_all add: N_def D_def wallis_num_pos wallis_den_pos)
  have IH: "9 * N * (2 * i + 2) \<le> 16 * D * (2 * i + 1)" using step.IH by (simp add: N_def D_def)
  have "9 * (N * (4 * (i + 1) * (i + 1))) * (2 * (i + 1) + 2)
        = 9 * N * (2 * i + 2) * ((2 * i + 2) * (2 * i + 4))" by (simp add: algebra_simps)
  also have "\<dots> \<le> 9 * N * (2 * i + 2) * ((2 * i + 3) * (2 * i + 3))"
    using N i0 by (intro mult_left_mono) (simp_all add: algebra_simps)
  also have "\<dots> \<le> 16 * D * (2 * i + 1) * ((2 * i + 3) * (2 * i + 3))"
    using IH i0 by (intro mult_right_mono) simp_all
  also have "\<dots> = 16 * (D * (4 * (i + 1) * (i + 1) - 1)) * (2 * (i + 1) + 1)"
    by (simp add: algebra_simps)
  finally show ?case
    by (simp only: wallis_num_step[OF i0] wallis_den_step[OF i0] N_def D_def)
qed

lemma wallis_num_upper: "9 * wallis_num n \<le> 16 * wallis_den n"
proof (cases "1 \<le> n")
  case True
  define N where "N = wallis_num n"
  define D where "D = wallis_den n"
  have N: "0 < N" and D: "0 < D" by (simp_all add: N_def D_def wallis_num_pos wallis_den_pos)
  have "9 * N * (2 * n + 2) \<le> 16 * D * (2 * n + 1)" using wallis_scaled_bound[OF True] by (simp add: N_def D_def)
  also have "\<dots> \<le> 16 * D * (2 * n + 2)" using D by (intro mult_left_mono) simp_all
  finally have "9 * N \<le> 16 * D" using True by (simp only: mult_le_cancel_right)
  then show ?thesis by (simp add: N_def D_def)
next
  case False
  then show ?thesis by (simp add: wallis_num_0 wallis_den_0)
qed

lemma wallis_unit_range:
  "0 < wallis_den n" "wallis_den n \<le> wallis_num n" "wallis_num n < 2 * wallis_den n"
  using wallis_den_pos[of n] wallis_den_le_num[of n] wallis_num_upper[of n] by linarith+

lemma wallis_quot_ge_1: "1 \<le> wallis_quot n"
  using wallis_den_pos[of n] wallis_den_le_num[of n]
  by (simp add: wallis_quot_def le_divide_eq)

lemma wallis_quot_le: "wallis_quot n \<le> 16 / 9"
proof -
  have "(of_int (9 * wallis_num n) :: rat) \<le> of_int (16 * wallis_den n)"
    using wallis_num_upper[of n] by (simp only: of_int_le_iff)
  then show ?thesis using wallis_den_pos[of n]
    by (simp add: wallis_quot_def divide_le_eq)
qed

lemma wallis_quot_nonpos: "n \<le> 0 \<Longrightarrow> wallis_quot n = 1"
  by (simp add: wallis_quot_def wallis_num_0 wallis_den_0)

lemma round53_wallis_range: "1 - 1 / 2 ^ 53 \<le> round53 (wallis_quot n)" "round53 (wallis_quot n) \<le> 16 / 9 + 1 / 2 ^ 53"
  using round53_error[of "wallis_quot n"] wallis_quot_ge_1[of n] wallis_quot_le[of n]
  by linarith+

section \<open>The value of \<open>w_pi\<close>\<close>

lemma w_pi_value: "w_pi n = Inr (Fin (2 * round53 (wallis_quot n)))"
proof -
  have t: "truediv (wallis_num n) (wallis_den n) = Inr (round53 (wallis_quot n))"
    unfolding wallis_quot_def by (rule truediv_unit[OF wallis_unit_range])
  have "- 2 < round53 (wallis_quot n)" "round53 (wallis_quot n) < 2"
    using round53_wallis_range[of n] by simp_all
  then have "fmul_two (round53 (wallis_quot n)) = Fin (2 * round53 (wallis_quot n))"
    by (rule fmul_two_small)
  then show ?thesis by (simp add: w_pi_def wallis_loop_eq t)
qed

lemma w_pi_nonpos: "n \<le> 0 \<Longrightarrow> w_pi n = Inr (Fin 2)"
  using round53_of_int[of 1] by (simp add: w_pi_value wallis_quot_nonpos)

section \<open>The partial products increase\<close>

lemma wallis_num_lower: "1 \<le> n \<Longrightarrow> 4 * wallis_den n \<le> 3 * wallis_num n"
proof (induction n rule: int_ge_induct)
  case base
  have "wallis_num (0 + 1) = 4" "wallis_den (0 + 1) = 3"
    by (simp_all only: wallis_num_step wallis_den_step order_refl wallis_num_0 wallis_den_0) simp_all
  then show ?case by simp
next
  case (step i)
  have i0: "0 \<le> i" using step.hyps by simp
  define t where "t = 4 * (i + 1) * (i + 1)"
  have "1 * 1 \<le> (i + 1) * (i + 1)" using i0 by (intro mult_mono) simp_all
  moreover have "t = 4 * ((i + 1) * (i + 1))" by (simp add: t_def)
  ultimately have t: "1 \<le> t" by linarith
  have "4 * (wallis_den i * (t - 1)) \<le> 4 * (wallis_den i * t)"
    using wallis_den_pos[of i] by (intro mult_left_mono) simp_all
  also have "\<dots> = (4 * wallis_den i) * t" by simp
  also have "\<dots> \<le> (3 * wallis_num i) * t"
    using step.IH t by (intro mult_right_mono) simp_all
  finally have "4 * (wallis_den i * (t - 1)) \<le> 3 * (wallis_num i * t)" by (simp only: mult.assoc)
  then show ?case
    unfolding wallis_num_step[OF i0] wallis_den_step[OF i0] t_def .
qed

lemma wallis_quot_ge: "1 \<le> n \<Longrightarrow> 4 / 3 \<le> wallis_quot n"
proof -
  assume "1 \<le> n"
  then have "(of_int (4 * wallis_den n) :: rat) \<le> of_int (3 * wallis_num n)"
    using wallis_num_lower[of n] by (simp only: of_int_le_iff)
  then show ?thesis using wallis_den_pos[of n]
    by (simp add: wallis_quot_def le_divide_eq)
qed

lemma wallis_quot_pos: "0 < wallis_quot n"
  using wallis_quot_ge_1[of n] by simp

lemma wallis_quot_step:
  assumes "0 \<le> n"
  shows "wallis_quot (n + 1) =
    wallis_quot n * (of_int (4 * (n + 1) * (n + 1)) / of_int (4 * (n + 1) * (n + 1) - 1))"
  by (simp only: wallis_quot_def wallis_num_step[OF assms] wallis_den_step[OF assms]
      of_int_mult times_divide_times_eq)

lemma wallis_factor_gt_1:
  assumes "0 \<le> n"
  shows "(1::rat) < of_int (4 * (n + 1) * (n + 1)) / of_int (4 * (n + 1) * (n + 1) - 1)"
proof -
  define t where "t = 4 * (n + 1) * (n + 1)"
  have "1 * 1 \<le> (n + 1) * (n + 1)" using assms by (intro mult_mono) simp_all
  moreover have "t = 4 * ((n + 1) * (n + 1))" by (simp add: t_def)
  ultimately have t: "1 < t - 1" by linarith
  then have "(0::rat) < of_int (t - 1)" "(of_int (t - 1) :: rat) < of_int t"
    by (simp_all only: of_int_0_less_iff of_int_less_iff)
  then have "(1::rat) < of_int t / of_int (t - 1)" by (simp add: less_divide_eq)
  then show ?thesis by (simp only: t_def)
qed

lemma wallis_quot_increasing: "0 \<le> n \<Longrightarrow> wallis_quot n < wallis_quot (n + 1)"
proof -
  assume n: "0 \<le> n"
  have "wallis_quot n * 1 < wallis_quot n * (of_int (4 * (n + 1) * (n + 1)) / of_int (4 * (n + 1) * (n + 1) - 1))"
    using wallis_quot_pos[of n] wallis_factor_gt_1[OF n] by (rule mult_strict_left_mono[rotated])
  then show ?thesis by (simp only: wallis_quot_step[OF n] mult_1_right)
qed

lemma wallis_quot_mono:
  assumes "0 \<le> m" "m \<le> n"
  shows "wallis_quot m \<le> wallis_quot n"
  using assms(2)
proof (induction n rule: int_ge_induct)
  case base
  show ?case by simp
next
  case (step i)
  have "0 \<le> i" using step.hyps assms(1) by simp
  from wallis_quot_increasing[OF this] step.IH show ?case by simp
qed

section \<open>The partial products stay below \<open>pi / 2\<close>\<close>

text \<open>
  The classical argument: with \<open>I\<^sub>n\<close> the integral of \<open>sin\<^sup>n\<close> over \<open>[0, pi/2]\<close>, the
  partial product is \<open>(pi/2) I\<^sub>2\<^sub>k\<^sub>+\<^sub>1 / I\<^sub>2\<^sub>k\<close>, and \<open>I\<^sub>n\<close> decreases strictly with \<open>n\<close>.
\<close>

lemma sin_int_deriv: "(sin_int n has_real_derivative sin x ^ n) (at x)"
proof (induction n x rule: sin_int.induct)
  case (1 x)
  show ?case by (auto intro!: derivative_eq_intros simp: fun_eq_iff)
next
  case (2 x)
  show ?case by (auto intro!: derivative_eq_intros)
next
  case (3 n x)
  have c: "cos x * cos x = 1 - sin x * sin x"
    using sin_cos_squared_add[of x] by (simp add: power2_eq_square algebra_simps)
  have "((\<lambda>x. (real (Suc n) * sin_int n x - sin x ^ Suc n * cos x) / real (Suc (Suc n)))
          has_real_derivative
        (real (Suc n) * sin x ^ n - (real (Suc n) * sin x ^ n * cos x * cos x + sin x ^ Suc n * (- sin x)))
          / real (Suc (Suc n))) (at x)"
    by (rule derivative_eq_intros 3 refl | simp)+
  moreover have "(real (Suc n) * sin x ^ n - (real (Suc n) * sin x ^ n * cos x * cos x + sin x ^ Suc n * (- sin x)))
          / real (Suc (Suc n)) = sin x ^ Suc (Suc n)"
  proof -
    have "real (Suc n) * sin x ^ n * cos x * cos x = real (Suc n) * sin x ^ n * (1 - sin x * sin x)"
      using c by (simp add: mult.assoc)
    then have "real (Suc n) * sin x ^ n - (real (Suc n) * sin x ^ n * cos x * cos x + sin x ^ Suc n * (- sin x))
        = real (Suc (Suc n)) * sin x ^ Suc (Suc n)"
      by (simp add: algebra_simps)
    then show ?thesis by simp
  qed
  ultimately have "((\<lambda>x. (real (Suc n) * sin_int n x - sin x ^ Suc n * cos x) / real (Suc (Suc n)))
          has_real_derivative sin x ^ Suc (Suc n)) (at x)" by simp
  moreover have "sin_int (Suc (Suc n)) = (\<lambda>x. (real (Suc n) * sin_int n x - sin x ^ Suc n * cos x) / real (Suc (Suc n)))"
    by (rule ext) simp
  ultimately show ?case by simp
qed

lemma sin_int_0: "sin_int n 0 = 0"
  by (induction n "0::real" rule: sin_int.induct) simp_all

lemma sin_int_half_pi_step:
  "sin_int (Suc (Suc n)) (pi / 2) = real (Suc n) / real (Suc (Suc n)) * sin_int n (pi / 2)"
  by simp

lemma sin_int_half_pi_pos: "0 < sin_int n (pi / 2)"
proof (induction n rule: induct_nat_012)
  case 0
  show ?case by simp
next
  case 1
  show ?case by simp
next
  case (ge2 n)
  have "0 < real (Suc n) / real (Suc (Suc n)) * sin_int n (pi / 2)"
    using ge2 by (intro mult_pos_pos divide_pos_pos) simp_all
  then show ?case by (simp only: sin_int_half_pi_step)
qed

lemma sin_int_less: "sin_int (Suc n) (pi / 2) < sin_int n (pi / 2)"
proof -
  define G where "G = (\<lambda>x. sin_int n x - sin_int (Suc n) x)"
  have dG: "(G has_real_derivative (sin x ^ n - sin x ^ Suc n)) (at x)" for x
    unfolding G_def by (rule DERIV_diff[OF sin_int_deriv sin_int_deriv])
  have "G 0 < G (pi / 2)"
  proof (rule DERIV_pos_imp_increasing_open[of 0 "pi / 2" G])
    show "(0::real) < pi / 2" by simp
    show "continuous_on {0..pi / 2} G"
      by (rule DERIV_continuous_on[where D="\<lambda>x. sin x ^ n - sin x ^ Suc n"]) (rule has_field_derivative_at_within[OF dG])
    fix x :: real assume x: "0 < x" "x < pi / 2"
    then have s0: "0 < sin x" by (intro sin_gt_zero) simp_all
    have "sin x < sin (pi / 2)" using x by (intro sin_monotone_2pi) simp_all
    then have s1: "sin x < 1" by simp
    have "sin x ^ n - sin x ^ Suc n = sin x ^ n * (1 - sin x)" by (simp add: algebra_simps)
    moreover have "0 < sin x ^ n * (1 - sin x)" using s0 s1 by (intro mult_pos_pos) simp_all
    ultimately show "\<exists>y. (G has_real_derivative y) (at x) \<and> 0 < y"
      using dG[of x] by auto
  qed
  then show ?thesis by (simp add: G_def sin_int_0)
qed

lemma wallis_sin_int:
  "real_of_rat (wallis_quot (int k)) * sin_int (2 * k) (pi / 2)
     = pi / 2 * sin_int (Suc (2 * k)) (pi / 2)"
proof (induction k)
  case 0
  show ?case by (simp add: wallis_quot_nonpos)
next
  case (Suc k)
  define W where "W = real_of_rat (wallis_quot (int k))"
  define A where "A = sin_int (2 * k) (pi / 2)"
  define B where "B = sin_int (Suc (2 * k)) (pi / 2)"
  define x where "x = real k"
  have x: "0 \<le> x" by (simp add: x_def)
  have IH: "W * A = pi / 2 * B" using Suc.IH by (simp add: W_def A_def B_def)
  have q: "wallis_quot (int (Suc k)) =
      wallis_quot (int k) * (of_int (4 * (int k + 1) * (int k + 1)) / of_int (4 * (int k + 1) * (int k + 1) - 1))"
    using wallis_quot_step[of "int k"] by (simp add: add.commute)
  have W': "real_of_rat (wallis_quot (int (Suc k))) = W * ((4 * (x + 1) * (x + 1)) / (4 * (x + 1) * (x + 1) - 1))"
    unfolding q by (simp add: of_rat_mult of_rat_divide of_rat_add of_rat_diff W_def x_def)
  have A': "sin_int (2 * Suc k) (pi / 2) = (2 * x + 1) / (2 * x + 2) * A"
  proof -
    have "2 * Suc k = Suc (Suc (2 * k))" by simp
    then show ?thesis by (simp only: sin_int_half_pi_step A_def) (simp add: x_def add.commute)
  qed
  have B': "sin_int (Suc (2 * Suc k)) (pi / 2) = (2 * x + 2) / (2 * x + 3) * B"
  proof -
    have "Suc (2 * Suc k) = Suc (Suc (Suc (2 * k)))" by simp
    then show ?thesis by (simp only: sin_int_half_pi_step B_def) (simp add: x_def add.commute)
  qed
  have f: "4 * (x + 1) * (x + 1) - 1 = (2 * x + 1) * (2 * x + 3)" by (simp add: algebra_simps)
  have g: "4 * (x + 1) * (x + 1) = (2 * x + 2) * (2 * x + 2)" by (simp add: algebra_simps)
  have cancel: "W * ((b * b) / (a * c)) * (a / b * A) = (W * A) * (b / c)"
    if "a \<noteq> 0" "b \<noteq> 0" for a b c :: real
    using that by simp
  have "2 * x + 1 \<noteq> 0" "2 * x + 2 \<noteq> 0" using x by simp_all
  then have "W * (((2 * x + 2) * (2 * x + 2)) / ((2 * x + 1) * (2 * x + 3))) * ((2 * x + 1) / (2 * x + 2) * A)
        = (W * A) * ((2 * x + 2) / (2 * x + 3))"
    by (rule cancel)
  moreover have "(4 * (x + 1) * (x + 1)) / (4 * (x + 1) * (x + 1) - 1)
        = ((2 * x + 2) * (2 * x + 2)) / ((2 * x + 1) * (2 * x + 3))"
    by (simp only: f) (simp only: g)
  ultimately have "W * ((4 * (x + 1) * (x + 1)) / (4 * (x + 1) * (x + 1) - 1)) * ((2 * x + 1) / (2 * x + 2) * A)
        = (W * A) * ((2 * x + 2) / (2 * x + 3))"
    by (simp only:)
  also have "\<dots> = pi / 2 * ((2 * x + 2) / (2 * x + 3) * B)" by (simp add: IH)
  finally show ?case by (simp only: W' A' B')
qed

lemma wallis_below_half_pi: "real_of_rat (wallis_quot n) < pi / 2"
proof -
  have nat_case: "real_of_rat (wallis_quot (int k)) < pi / 2" for k
  proof -
    define W where "W = real_of_rat (wallis_quot (int k))"
    define A where "A = sin_int (2 * k) (pi / 2)"
    define B where "B = sin_int (Suc (2 * k)) (pi / 2)"
    have A: "0 < A" unfolding A_def by (rule sin_int_half_pi_pos)
    have "B < A" unfolding A_def B_def by (rule sin_int_less)
    then have "pi / 2 * B < pi / 2 * A" by (intro mult_strict_left_mono) simp_all
    moreover have "W * A = pi / 2 * B" unfolding W_def A_def B_def by (rule wallis_sin_int)
    ultimately have "W * A < pi / 2 * A" by simp
    then show ?thesis using A by (simp add: W_def)
  qed
  show ?thesis
  proof (cases "0 \<le> n")
    case True
    then have "n = int (nat n)" by simp
    then show ?thesis using nat_case[of "nat n"] by simp
  next
    case False
    then have "wallis_quot n = wallis_quot (int 0)" by (simp add: wallis_quot_nonpos)
    then show ?thesis using nat_case[of 0] by simp
  qed
qed

lemma wallis_above:
  "pi / 2 * (2 * real k / (2 * real k + 1)) < real_of_rat (wallis_quot (int k))"
proof (cases k)
  case 0
  then show ?thesis using wallis_quot_pos[of 0] by simp
next
  case (Suc j)
  define W where "W = real_of_rat (wallis_quot (int k))"
  define A where "A = sin_int (2 * k) (pi / 2)"
  define B where "B = sin_int (Suc (2 * k)) (pi / 2)"
  define C where "C = sin_int (Suc (2 * j)) (pi / 2)"
  define x where "x = real k"
  have x: "1 \<le> x" by (simp add: x_def Suc)
  have A: "0 < A" unfolding A_def by (rule sin_int_half_pi_pos)
  have k2: "2 * k = Suc (Suc (2 * j))" by (simp add: Suc)
  have "A < C" unfolding A_def C_def k2 by (rule sin_int_less)
  moreover have "B = 2 * x / (2 * x + 1) * C"
  proof -
    have "Suc (2 * k) = Suc (Suc (Suc (2 * j)))" by (simp add: Suc)
    then show ?thesis unfolding B_def C_def by (simp only: sin_int_half_pi_step) (simp add: x_def Suc)
  qed
  moreover have "0 < 2 * x / (2 * x + 1)" using x by simp
  ultimately have "2 * x / (2 * x + 1) * A < B" by (simp only: mult_less_cancel_left_pos)
  then have lt: "pi / 2 * (2 * x / (2 * x + 1) * A) < pi / 2 * B" by (intro mult_strict_left_mono) simp_all
  have eq: "pi / 2 * B = W * A" unfolding W_def A_def B_def by (rule wallis_sin_int[symmetric])
  have "(pi / 2 * (2 * x / (2 * x + 1))) * A = pi / 2 * (2 * x / (2 * x + 1) * A)"
    by (simp only: mult.assoc)
  also note lt
  also note eq
  finally have "(pi / 2 * (2 * x / (2 * x + 1))) * A < W * A" .
  then have "pi / 2 * (2 * x / (2 * x + 1)) < W" using A by (simp only: mult_less_cancel_right_pos)
  then show ?thesis by (simp only: W_def x_def)
qed

section \<open>The error at 1000 terms and at 10 terms\<close>

lemma round53_real_bounds:
  "real_of_rat x - 1 / 2 ^ 53 \<le> real_of_rat (round53 x)"
  "real_of_rat (round53 x) \<le> real_of_rat x + 1 / 2 ^ 53"
proof -
  have "x - 1 / 2 ^ 53 \<le> round53 x" "round53 x \<le> x + 1 / 2 ^ 53"
    using round53_error[of x] by linarith+
  then have "real_of_rat (x - 1 / 2 ^ 53) \<le> real_of_rat (round53 x)"
    "real_of_rat (round53 x) \<le> real_of_rat (x + 1 / 2 ^ 53)"
    by (simp_all only: of_rat_less_eq)
  then show "real_of_rat x - 1 / 2 ^ 53 \<le> real_of_rat (round53 x)"
    "real_of_rat (round53 x) \<le> real_of_rat x + 1 / 2 ^ 53"
    by (simp_all add: of_rat_add of_rat_diff of_rat_divide of_rat_power)
qed

lemma wallis_gap_10_1000: "wallis_quot 10 + 1 / 483 \<le> wallis_quot 1000"
proof -
  have "wallis_quot (10 + 1) = wallis_quot 10 * (of_int (4 * (10 + 1) * (10 + 1)) / of_int (4 * (10 + 1) * (10 + 1) - 1))"
    by (rule wallis_quot_step) simp
  then have "wallis_quot 11 = wallis_quot 10 + wallis_quot 10 / 483"
    by (simp add: field_simps)
  moreover have "1 / 483 \<le> wallis_quot 10 / 483"
    using wallis_quot_ge_1[of 10] by simp
  moreover have "wallis_quot 11 \<le> wallis_quot 1000" by (rule wallis_quot_mono) simp_all
  ultimately show ?thesis by linarith
qed

lemma wallis_error_exact:
  "\<bar>real_of_rat (2 * wallis_quot 1000) - pi\<bar> < \<bar>real_of_rat (2 * wallis_quot 10) - pi\<bar>"
proof -
  have "real_of_rat (wallis_quot 10 + 1 / 483) \<le> real_of_rat (wallis_quot 1000)"
    using wallis_gap_10_1000 by (simp only: of_rat_less_eq)
  then have "real_of_rat (wallis_quot 10) + 1 / 483 \<le> real_of_rat (wallis_quot 1000)"
    by (simp add: of_rat_add of_rat_divide)
  moreover have "real_of_rat (wallis_quot 1000) < pi / 2" by (rule wallis_below_half_pi)
  ultimately show ?thesis by (simp add: of_rat_mult)
qed

lemma wallis_error_float:
  "\<bar>real_of_rat (2 * round53 (wallis_quot 1000)) - pi\<bar>
     < \<bar>real_of_rat (2 * round53 (wallis_quot 10)) - pi\<bar>"
proof -
  define Q10 where "Q10 = real_of_rat (wallis_quot 10)"
  define Q1000 where "Q1000 = real_of_rat (wallis_quot 1000)"
  define a where "a = real_of_rat (round53 (wallis_quot 10))"
  define b where "b = real_of_rat (round53 (wallis_quot 1000))"
  define u :: real where "u = 1 / 2 ^ 53"
  have u: "0 < u" "4 * u < 1 / 483" by (simp_all add: u_def)
  have "real_of_rat (wallis_quot 10 + 1 / 483) \<le> real_of_rat (wallis_quot 1000)"
    using wallis_gap_10_1000 by (simp only: of_rat_less_eq)
  then have gap: "Q10 + 1 / 483 \<le> Q1000"
    by (simp add: of_rat_add of_rat_divide Q10_def Q1000_def)
  have below: "Q1000 < pi / 2" unfolding Q1000_def by (rule wallis_below_half_pi)
  have a: "a \<le> Q10 + u" unfolding a_def Q10_def u_def by (rule round53_real_bounds)
  have b: "Q1000 - u \<le> b" "b \<le> Q1000 + u"
    unfolding b_def Q1000_def u_def by (rule round53_real_bounds)+
  have "\<bar>2 * b - pi\<bar> < \<bar>2 * a - pi\<bar>"
    using u gap below a b by linarith
  then show ?thesis by (simp add: of_rat_mult a_def b_def)
qed

section \<open>The properties of the specification\<close>

text \<open>
  C1. For every non-negative integer \<open>n\<close>, \<open>w_pi n\<close> returns \<open>2.0 * (N / D)\<close>, where \<open>N\<close>
  is the exact integer product of \<open>4*i*i\<close> and \<open>D\<close> the exact integer product of
  \<open>4*i*i - 1\<close> for \<open>i\<close> from 1 to \<open>n\<close>, and the only division is the one float division at
  the end: the loop leaves exactly \<open>(N, D)\<close>, the division of these two integers succeeds
  and is the quotient \<open>N / D\<close> rounded once to binary64, the multiplication by \<open>2.0\<close> is
  exact, and so the result is within \<open>2\<^sup>-\<^sup>5\<^sup>2\<close> of the rational \<open>2 N / D\<close>.
\<close>

theorem w_pi_rounded_quotient:
  "0 \<le> n \<Longrightarrow>
     wallis_loop n = (wallis_num n, wallis_den n) \<and>
     truediv (wallis_num n) (wallis_den n) = Inr (round53 (wallis_quot n)) \<and>
     w_pi n = Inr (fmul_two (round53 (wallis_quot n))) \<and>
     fmul_two (round53 (wallis_quot n)) = Fin (2 * round53 (wallis_quot n)) \<and>
     \<bar>2 * round53 (wallis_quot n) - 2 * wallis_quot n\<bar> \<le> 1 / 2 ^ 52"
proof -
  have t: "truediv (wallis_num n) (wallis_den n) = Inr (round53 (wallis_quot n))"
    unfolding wallis_quot_def by (rule truediv_unit[OF wallis_unit_range])
  have "- 2 < round53 (wallis_quot n)" "round53 (wallis_quot n) < 2"
    using round53_wallis_range[of n] by simp_all
  then have f: "fmul_two (round53 (wallis_quot n)) = Fin (2 * round53 (wallis_quot n))"
    by (rule fmul_two_small)
  have "2 * round53 (wallis_quot n) - 2 * wallis_quot n = 2 * (round53 (wallis_quot n) - wallis_quot n)"
    by simp
  then have "\<bar>2 * round53 (wallis_quot n) - 2 * wallis_quot n\<bar> = 2 * \<bar>round53 (wallis_quot n) - wallis_quot n\<bar>"
    by (simp only: abs_mult)
  also have "\<dots> \<le> 2 * (1 / 2 ^ 53)"
    by (intro mult_left_mono round53_error) simp
  finally have e: "\<bar>2 * round53 (wallis_quot n) - 2 * wallis_quot n\<bar> \<le> 1 / 2 ^ 52"
    by simp
  show ?thesis
    using t f e by (simp add: wallis_loop_eq w_pi_value)
qed

theorem w_pi_rounded_quotient_witness:
  "(0::int) \<le> 3 \<and> wallis_loop 3 = (2304, 1575) \<and>
   w_pi 3 = Inr (Fin (6588122883467697 / 2251799813685248))"
proof -
  have l: "wallis_loop 3 = (2304, 1575)" by code_simp
  have r: "round53 (2304 / 1575) = 6588122883467697 / 4503599627370496" by code_simp
  have "wallis_num 3 = 2304" "wallis_den 3 = 1575"
    using w_pi_rounded_quotient[of 3] l by simp_all
  then show ?thesis
    using w_pi_rounded_quotient[of 3] l r by (simp add: wallis_quot_def)
qed




text \<open>
  C3. \<open>w_pi 0\<close> returns exactly \<open>2.0\<close>: the loop does not run, numerator and denominator
  are both 1, their quotient is exactly \<open>1.0\<close>.
\<close>

theorem w_pi_at_zero_is_two: "wallis_loop 0 = (1, 1) \<and> truediv 1 1 = Inr 1 \<and> w_pi 0 = Inr (Fin 2)"
proof -
  have "truediv 1 1 = Inr (round53 (of_int 1 / of_int 1))"
    by (rule truediv_unit) simp_all
  then have "truediv 1 1 = Inr 1" using round53_of_int[of 1] by simp
  then show ?thesis by (simp add: wallis_loop_neg w_pi_nonpos)
qed

text \<open>
  C4. For \<open>n = 1\<close> the loop ends with numerator 4 and denominator 3, and \<open>w_pi 1\<close> is
  \<open>8/3\<close>: it is the same float as Python's \<open>8 / 3\<close>, the binary64 value nearest to the
  rational \<open>8/3\<close> (printed \<open>2.6666666666666665\<close>).
\<close>

theorem w_pi_at_one_is_eight_thirds:
  "wallis_loop 1 = (4, 3) \<and>
   w_pi 1 = Inr (Fin (6004799503160661 / 2251799813685248)) \<and>
   truediv 8 3 = Inr (6004799503160661 / 2251799813685248) \<and>
   \<bar>6004799503160661 / 2251799813685248 - 8 / 3 :: rat\<bar> \<le> 1 / 2 ^ 52"
proof -
  have l: "wallis_loop 1 = (4, 3)" by (simp add: wallis_loop_def upto_rec1)
  then have nd: "wallis_num 1 = 4" "wallis_den 1 = 3" by (simp_all add: wallis_loop_eq)
  have r: "round53 (4 / 3) = 6004799503160661 / 4503599627370496" by code_simp
  have w: "w_pi 1 = Inr (Fin (6004799503160661 / 2251799813685248))"
    by (simp add: w_pi_value wallis_quot_def nd r)
  have n: "nearest_double 8 3 = 6004799503160661 / 2251799813685248" by code_simp
  have "truediv 8 3 = Inr (nearest_double 8 3)"
    by (rule truediv_pos) (simp_all add: n)
  then have t: "truediv 8 3 = Inr (6004799503160661 / 2251799813685248)" by (simp only: n)
  have e: "\<bar>6004799503160661 / 2251799813685248 - 8 / 3 :: rat\<bar> \<le> 1 / 2 ^ 52" by simp
  show ?thesis using l w t e by blast
qed

text \<open>
  C5 (as amended). For every non-negative integer \<open>n\<close> the value \<open>w_pi n\<close> is a finite float
  with \<open>2.0 \<le> w_pi n < 4.0\<close>, and for every \<open>n \<ge> 1\<close> it lies strictly between \<open>2.0\<close> and
  \<open>4.0\<close>.
\<close>

theorem w_pi_between_two_and_four:
  "0 \<le> n \<Longrightarrow>
     (\<exists>x. w_pi n = Inr (Fin x) \<and> 2 \<le> x \<and> x < 4) \<and>
     (1 \<le> n \<longrightarrow> float_in_open 2 4 (w_pi n))"
proof -
  define r where "r = round53 (wallis_quot n)"
  have w: "w_pi n = Inr (Fin (2 * r))" by (simp add: r_def w_pi_value)
  have e: "wallis_quot n - 1 / 2 ^ 53 \<le> r"
    using round53_error[of "wallis_quot n"] unfolding r_def by linarith
  have up: "2 * r < 4" using round53_wallis_range(2)[of n] by (simp add: r_def)
  have lo: "2 \<le> 2 * r"
  proof (cases "1 \<le> n")
    case True
    then show ?thesis using wallis_quot_ge[of n] e by simp
  next
    case False
    then have "wallis_quot n = 1" by (simp add: wallis_quot_nonpos)
    then show ?thesis using round53_of_int[of 1] by (simp add: r_def)
  qed
  have st: "2 < 2 * r" if "1 \<le> n"
    using wallis_quot_ge[OF that] e by simp
  show ?thesis using w up lo st by (simp add: float_in_open_def)
qed

theorem w_pi_between_two_and_four_witness:
  "(0::int) \<le> 1 \<and> (1::int) \<le> 1 \<and> float_in_open 2 4 (w_pi 1) \<and>
   (\<exists>x. w_pi 1 = Inr (Fin x) \<and> 2 \<le> x \<and> x < 4)"
  using w_pi_between_two_and_four[of 1] by simp

text \<open>
  C5 as stated (strictly between \<open>2.0\<close> and \<open>4.0\<close> for every valid \<open>n\<close>) does not hold at
  the valid input \<open>n = 0\<close>, where the value is exactly \<open>2.0\<close>.
\<close>

theorem w_pi_zero_not_above_two: "w_pi 0 = Inr (Fin 2) \<and> \<not> float_in_open 2 4 (w_pi 0)"
  by (simp add: w_pi_nonpos float_in_open_def)

text \<open>
  C6. The partial products increase towards \<open>pi\<close> from below: for every non-negative \<open>n\<close>
  the exact value \<open>2 N(n) / D(n)\<close> is strictly less than \<open>2 N(n+1) / D(n+1)\<close> and strictly
  below \<open>pi\<close> (and above \<open>pi * 2n / (2n+1)\<close>, so the values do approach \<open>pi\<close>); consequently
  the absolute error against \<open>pi\<close> at \<open>n = 1000\<close> is smaller than at \<open>n = 10\<close>, for the exact
  values and for the floats that \<open>w_pi\<close> returns.
\<close>

theorem wallis_increasing_below_pi:
  "0 \<le> n \<Longrightarrow>
     2 * wallis_quot n < 2 * wallis_quot (n + 1) \<and>
     real_of_rat (2 * wallis_quot n) < pi \<and>
     pi * (real_of_int (2 * n) / real_of_int (2 * n + 1)) < real_of_rat (2 * wallis_quot n) \<and>
     \<bar>real_of_rat (2 * wallis_quot 1000) - pi\<bar> < \<bar>real_of_rat (2 * wallis_quot 10) - pi\<bar> \<and>
     w_pi 10 = Inr (Fin (2 * round53 (wallis_quot 10))) \<and>
     w_pi 1000 = Inr (Fin (2 * round53 (wallis_quot 1000))) \<and>
     \<bar>real_of_rat (2 * round53 (wallis_quot 1000)) - pi\<bar>
       < \<bar>real_of_rat (2 * round53 (wallis_quot 10)) - pi\<bar>"
proof -
  assume n: "0 \<le> n"
  have inc: "2 * wallis_quot n < 2 * wallis_quot (n + 1)"
    using wallis_quot_increasing[OF n] by simp
  have below: "real_of_rat (2 * wallis_quot n) < pi"
    using wallis_below_half_pi[of n] by (simp add: of_rat_mult)
  define x where "x = real (nat n)"
  define W where "W = real_of_rat (wallis_quot (int (nat n)))"
  define p where "p = pi * (2 * x / (2 * x + 1))"
  have "pi / 2 * (2 * x / (2 * x + 1)) < W"
    unfolding x_def W_def by (rule wallis_above)
  moreover have "pi / 2 * (2 * x / (2 * x + 1)) = p / 2"
    unfolding p_def by (rule times_divide_eq_left)
  ultimately have "p / 2 < W" by (simp only:)
  then have "p < 2 * W" by linarith
  then have "pi * (2 * x / (2 * x + 1)) < 2 * W" by (simp only: p_def)
  moreover have "x = real_of_int n" "int (nat n) = n" using n by (simp_all add: x_def)
  ultimately have above: "pi * (real_of_int (2 * n) / real_of_int (2 * n + 1)) < real_of_rat (2 * wallis_quot n)"
    by (simp add: of_rat_mult W_def)
  show ?thesis
    using inc below above wallis_error_exact wallis_error_float
    by (simp only: w_pi_value simp_thms)
qed

theorem wallis_increasing_below_pi_witness:
  "(0::int) \<le> 2 \<and> wallis_quot 2 = 64 / 45 \<and> wallis_quot 3 = 256 / 175 \<and>
   2 * wallis_quot 2 < 2 * wallis_quot 3 \<and>
   real_of_rat (2 * wallis_quot 2) < pi \<and> pi * (4 / 5) < real_of_rat (2 * wallis_quot 2)"
proof -
  have "wallis_loop 2 = (64, 45)" "wallis_loop 3 = (2304, 1575)" by code_simp+
  then have q: "wallis_quot 2 = 64 / 45" "wallis_quot 3 = 256 / 175"
    by (simp_all add: wallis_loop_eq wallis_quot_def)
  have "2 * wallis_quot 2 < 2 * wallis_quot 3 \<and>
     real_of_rat (2 * wallis_quot 2) < pi \<and> pi * (4 / 5) < real_of_rat (2 * wallis_quot 2)"
    using wallis_increasing_below_pi[of 2] by simp
  with q show ?thesis by (simp only: simp_thms)
qed




text \<open>
  C9. For every negative integer \<open>n\<close> the range of the loop is empty, no error is raised,
  and \<open>w_pi n\<close> returns exactly \<open>2.0\<close>, the value of \<open>w_pi 0\<close>.
\<close>

theorem w_pi_negative_empty_product:
  "n < 0 \<Longrightarrow>
     [1..n] = [] \<and> wallis_loop n = (1, 1) \<and> w_pi n = Inr (Fin 2) \<and> w_pi n = w_pi 0"
  by (simp add: wallis_loop_neg w_pi_nonpos)

theorem w_pi_negative_empty_product_witness:
  "(- 5 :: int) < 0 \<and> [1..- 5] = [] \<and> wallis_loop (- 5) = (1, 1) \<and>
   w_pi (- 5) = Inr (Fin 2) \<and> w_pi (- 5) = w_pi 0"
  using w_pi_negative_empty_product[of "- 5"] by auto

text \<open>
  C10. For every integer \<open>n\<close> the denominator at the final division is at least 1 (each
  factor \<open>4*i*i - 1\<close> of the loop is at least 3), so the division never divides by zero.
\<close>

theorem w_pi_denominator_positive:
  "1 \<le> snd (wallis_loop n) \<and>
   truediv (fst (wallis_loop n)) (snd (wallis_loop n)) \<noteq> Inl ZeroDivisionError \<and>
   w_pi n \<noteq> Inl ZeroDivisionError \<and>
   (\<forall>i\<in>set [1..n]. 3 \<le> 4 * i * i - 1)"
proof -
  have d: "1 \<le> snd (wallis_loop n)" using wallis_den_pos[of n] by (simp add: wallis_loop_eq)
  have t: "truediv (fst (wallis_loop n)) (snd (wallis_loop n)) \<noteq> Inl ZeroDivisionError"
    using truediv_unit[OF wallis_unit_range, of n] by (simp add: wallis_loop_eq)
  have w: "w_pi n \<noteq> Inl ZeroDivisionError" by (simp add: w_pi_value)
  have f: "3 \<le> 4 * i * i - 1" if "i \<in> set [1..n]" for i
  proof -
    have "1 \<le> i" using that by simp
    then have "1 * 1 \<le> i * i" by (intro mult_mono) simp_all
    then show ?thesis by simp
  qed
  show ?thesis using d t w f by blast
qed

theorem w_pi_denominator_positive_witness:
  "snd (wallis_loop 2) = 45 \<and> 1 \<le> snd (wallis_loop 2) \<and> w_pi 2 \<noteq> Inl ZeroDivisionError \<and>
   (2::int) \<in> set [1..2] \<and> (3::int) \<le> 4 * 2 * 2 - 1"
proof -
  have "wallis_loop 2 = (64, 45)" by code_simp
  then show ?thesis using w_pi_denominator_positive[of 2] by simp
qed

end
